theory Spec2Isabelle
  imports
    Main
    "HOL-Library.Multiset"
    "HOL-Library.Char_ord"
    "HOL-Library.List_Lexorder"
    "HOL-Library.Sublist"
begin

section \<open>The reconciliation engine of the application-connections resource\<close>

text \<open>
  This theory embeds the helper methods of \<^verbatim>\<open>resource_application_connections.go\<close> that
  reconcile one application's membership in the \<^verbatim>\<open>enabled_clients\<close> list of every
  connection of an Auth0 tenant: \<^verbatim>\<open>getConnectionClients\<close>, \<^verbatim>\<open>updateConnectionClients\<close>,
  \<^verbatim>\<open>stringSlicesEqual\<close> and \<^verbatim>\<open>applyConnectionState\<close>.

  Go strings are byte sequences and are modelled as \<^typ>\<open>string\<close>; a Go slice of strings is a
  \<^typ>\<open>string list\<close>, the nil slice and the empty slice both being \<^term>\<open>[]\<close> (the code takes
  their length, ranges over them and marshals them to JSON, where the nil slice is written
  \<^verbatim>\<open>null\<close>; the tenant is taken to read both as the empty list). \<^verbatim>\<open>sort.Strings\<close> sorts in increasing byte-wise
  lexicographic order, which is the order of \<^typ>\<open>string\<close> given by the character order and
  the lexicographic order on lists; a sorted permutation being unique, \<^const>\<open>sort\<close> computes
  the same list. A Go function returning \<^verbatim>\<open>([]string, error)\<close> returns a pair of a list and
  an \<^typ>\<open>'e option\<close>, \<^term>\<open>None\<close> being the nil error.
\<close>

subsection \<open>The remote tenant\<close>

text \<open>
  What \<^verbatim>\<open>http.NewRequestWithContext\<close> and \<^verbatim>\<open>HTTPClient.Do\<close> give for one request:
  the request could not be built, it was sent without a response coming back, or a response
  came back with a status code and a body. The strings are the texts of the underlying errors
  and the body of the response.
\<close>

datatype answer =
    NoRequest string
  | NoResponse string
  | Response nat string

text \<open>The calls the engine makes to its two helpers, in the order it makes them.\<close>

datatype call =
    Read string
  | Write string "string list"

text \<open>
  The tenant, as the engine sees it through the Management API. \<open>enabled_clients\<close> is the
  list the tenant holds for each connection ID. The answer to \<^verbatim>\<open>GET /api/v2/connections/{id}\<close>
  and to \<^verbatim>\<open>PATCH /api/v2/connections/{id}\<close> is taken to depend on the connection addressed
  only; \<open>get_decode_error\<close> is the error of the JSON decoder on the body of a 200 answer to
  the GET, if any, and a 200 answer that decodes carries the list the tenant holds. The tenant
  replaces its list by the one of a PATCH exactly when it answers 200. \<open>calls\<close> records the
  helper calls made so far.
\<close>

record tenant =
  enabled_clients :: "string \<Rightarrow> string list"
  get_answer :: "string \<Rightarrow> answer"
  get_decode_error :: "string \<Rightarrow> string option"
  patch_answer :: "string \<Rightarrow> answer"
  calls :: "call list"

subsection \<open>Errors\<close>

text \<open>
  One constructor for each \<^verbatim>\<open>fmt.Errorf\<close> of the helpers; \<open>UpdateConnection\<close> is the
  wrapping \<^verbatim>\<open>"failed to update connection %s: %w"\<close> of \<^verbatim>\<open>applyConnectionState\<close>.
  \<^verbatim>\<open>json.Marshal\<close> of a map holding a slice of strings does not fail, so the
  \<^verbatim>\<open>"failed to marshal payload"\<close> return has no constructor.
\<close>

datatype error =
    CreateConnectionRequest string
  | MakeConnectionRequest string
  | DecodeConnectionResponse string
  | CreateUpdateRequest string
  | MakeUpdateRequest string
  | UpdateRequestStatus nat string
  | UpdateConnection string error

fun decimal :: "nat \<Rightarrow> string" where
  "decimal n =
     (if n < 10 then [''0123456789'' ! n]
      else decimal (n div 10) @ [''0123456789'' ! (n mod 10)])"

declare decimal.simps [simp del]

fun error_message :: "error \<Rightarrow> string" where
  "error_message (CreateConnectionRequest cause) =
     ''failed to create connection request: '' @ cause"
| "error_message (MakeConnectionRequest cause) =
     ''failed to make connection request: '' @ cause"
| "error_message (DecodeConnectionResponse cause) =
     ''failed to decode connection response: '' @ cause"
| "error_message (CreateUpdateRequest cause) =
     ''failed to create update request: '' @ cause"
| "error_message (MakeUpdateRequest cause) =
     ''failed to make update request: '' @ cause"
| "error_message (UpdateRequestStatus status body) =
     ''update request failed with status '' @ decimal status @ '': '' @ body"
| "error_message (UpdateConnection connectionId err) =
     ''failed to update connection '' @ connectionId @ '': '' @ error_message err"

subsection \<open>The helpers\<close>

text \<open>
  \<^verbatim>\<open>getConnectionClients\<close>: an error when the request cannot be built or sent or when the
  body of a 200 answer does not decode; the empty list and no error when the status is not 200;
  the connection's list otherwise.
\<close>

definition getConnectionClients ::
  "tenant \<Rightarrow> string \<Rightarrow> tenant \<times> string list \<times> error option" where
  "getConnectionClients t connectionId =
     (let t' = t\<lparr>calls := calls t @ [Read connectionId]\<rparr> in
      case get_answer t connectionId of
        NoRequest cause \<Rightarrow> (t', [], Some (CreateConnectionRequest cause))
      | NoResponse cause \<Rightarrow> (t', [], Some (MakeConnectionRequest cause))
      | Response status body \<Rightarrow>
          if status \<noteq> 200 then (t', [], None)
          else (case get_decode_error t connectionId of
                  Some cause \<Rightarrow> (t', [], Some (DecodeConnectionResponse cause))
                | None \<Rightarrow> (t', enabled_clients t connectionId, None)))"

text \<open>
  \<^verbatim>\<open>updateConnectionClients\<close>: the PATCH carries the whole list; any answer other than
  200 is an error.
\<close>

definition updateConnectionClients ::
  "tenant \<Rightarrow> string \<Rightarrow> string list \<Rightarrow> tenant \<times> error option" where
  "updateConnectionClients t connectionId enabledClients =
     (let t' = t\<lparr>calls := calls t @ [Write connectionId enabledClients]\<rparr> in
      case patch_answer t connectionId of
        NoRequest cause \<Rightarrow> (t', Some (CreateUpdateRequest cause))
      | NoResponse cause \<Rightarrow> (t', Some (MakeUpdateRequest cause))
      | Response status body \<Rightarrow>
          if status \<noteq> 200 then (t', Some (UpdateRequestStatus status body))
          else (t'\<lparr>enabled_clients := (enabled_clients t')(connectionId := enabledClients)\<rparr>,
                None))"

text \<open>
  \<^verbatim>\<open>stringSlicesEqual\<close>: the lengths are compared first, then the elements by index; the
  index loop is \<open>stringSlicesEqual_from\<close>, started at 0.
\<close>

function stringSlicesEqual_from :: "nat \<Rightarrow> string list \<Rightarrow> string list \<Rightarrow> bool" where
  "stringSlicesEqual_from i a b =
     (if i < length a
      then (if a ! i \<noteq> b ! i then False else stringSlicesEqual_from (Suc i) a b)
      else True)"
  by pat_completeness auto
termination
  by (relation "measure (\<lambda>(i, a, b). length a - i)") auto

declare stringSlicesEqual_from.simps [simp del]

definition stringSlicesEqual :: "string list \<Rightarrow> string list \<Rightarrow> bool" where
  "stringSlicesEqual a b =
     (if length a \<noteq> length b then False else stringSlicesEqual_from 0 a b)"

subsection \<open>applyConnectionState\<close>

text \<open>
  The set of enabled connections is a Go \<^verbatim>\<open>map[string]bool\<close> filled from the desired list;
  indexing it at a missing key gives \<^verbatim>\<open>false\<close>.
\<close>

definition makeEnabledSet :: "string list \<Rightarrow> (string \<rightharpoonup> bool)" where
  "makeEnabledSet enabledConnectionIds =
     foldl (\<lambda>enabledSet connId. enabledSet(connId \<mapsto> True)) Map.empty enabledConnectionIds"

definition index_bool :: "(string \<rightharpoonup> bool) \<Rightarrow> string \<Rightarrow> bool" where
  "index_bool m k = (case m k of None \<Rightarrow> False | Some b \<Rightarrow> b)"

text \<open>
  The list \<^verbatim>\<open>newClients\<close> as the two appending steps leave it, before it is sorted:
  every current client other than the application, in the order read, then the application
  when the connection is in the enabled set.
\<close>

definition rebuildClients :: "string \<Rightarrow> bool \<Rightarrow> string list \<Rightarrow> string list" where
  "rebuildClients applicationId enabled currentClients =
     (let newClients = filter (\<lambda>clientId. clientId \<noteq> applicationId) currentClients
      in if enabled then newClients @ [applicationId] else newClients)"

text \<open>
  The loop over \<^verbatim>\<open>allConnections\<close>, with \<^verbatim>\<open>managedConnections\<close> as accumulator. A failed
  read continues with the next connection. Both slices are sorted in place, so the list
  compared and the list handed to \<^verbatim>\<open>updateConnectionClients\<close> is the sorted one. A failed
  update returns at once, with a nil list and the wrapped error.
\<close>

fun applyConnectionState_loop ::
  "string \<Rightarrow> (string \<rightharpoonup> bool) \<Rightarrow> string list \<Rightarrow> string list \<Rightarrow> tenant
     \<Rightarrow> tenant \<times> string list \<times> error option" where
  "applyConnectionState_loop applicationId enabledSet [] managedConnections t =
     (t, managedConnections, None)"
| "applyConnectionState_loop applicationId enabledSet (connectionId # rest) managedConnections t =
     (case getConnectionClients t connectionId of
        (t1, currentClients, Some err) \<Rightarrow>
          applyConnectionState_loop applicationId enabledSet rest managedConnections t1
      | (t1, currentClients, None) \<Rightarrow>
          (let newClients =
                 sort (rebuildClients applicationId (index_bool enabledSet connectionId)
                         currentClients);
               currentClients = sort currentClients
           in if \<not> stringSlicesEqual currentClients newClients
              then (case updateConnectionClients t1 connectionId newClients of
                      (t2, Some err) \<Rightarrow> (t2, [], Some (UpdateConnection connectionId err))
                    | (t2, None) \<Rightarrow>
                        applyConnectionState_loop applicationId enabledSet rest
                          (managedConnections @ [connectionId]) t2)
              else applyConnectionState_loop applicationId enabledSet rest
                     managedConnections t1))"

declare applyConnectionState_loop.simps(2) [simp del]

definition applyConnectionState ::
  "tenant \<Rightarrow> string list \<Rightarrow> string \<Rightarrow> string list \<Rightarrow> tenant \<times> string list \<times> error option" where
  "applyConnectionState t allConnections applicationId enabledConnectionIds =
     applyConnectionState_loop applicationId (makeEnabledSet enabledConnectionIds)
       allConnections [] t"

subsection \<open>Views of a call and of a run\<close>

text \<open>
  The list and the error \<^verbatim>\<open>getConnectionClients\<close> returns, and the error
  \<^verbatim>\<open>updateConnectionClients\<close> returns (it does not depend on the list sent).
\<close>

definition seen :: "tenant \<Rightarrow> string \<Rightarrow> string list" where
  "seen t connectionId = fst (snd (getConnectionClients t connectionId))"

definition read_error :: "tenant \<Rightarrow> string \<Rightarrow> error option" where
  "read_error t connectionId = snd (snd (getConnectionClients t connectionId))"

definition write_error :: "tenant \<Rightarrow> string \<Rightarrow> error option" where
  "write_error t connectionId = snd (updateConnectionClients t connectionId [])"

text \<open>
  A read succeeds when the answer is a 200 whose body decodes; it is refused when the answer
  has another status. A write succeeds when the answer is a 200.
\<close>

definition read_succeeds :: "tenant \<Rightarrow> string \<Rightarrow> bool" where
  "read_succeeds t connectionId =
     (case get_answer t connectionId of
        Response status body \<Rightarrow> status = 200 \<and> get_decode_error t connectionId = None
      | _ \<Rightarrow> False)"

definition read_refused :: "tenant \<Rightarrow> string \<Rightarrow> bool" where
  "read_refused t connectionId =
     (case get_answer t connectionId of Response status body \<Rightarrow> status \<noteq> 200 | _ \<Rightarrow> False)"

definition write_succeeds :: "tenant \<Rightarrow> string \<Rightarrow> bool" where
  "write_succeeds t connectionId =
     (case patch_answer t connectionId of Response status body \<Rightarrow> status = 200 | _ \<Rightarrow> False)"

text \<open>
  The sorted \<^verbatim>\<open>newClients\<close> of an iteration on connection \<open>c\<close> in tenant \<open>t\<close>, and the
  outcome of its change detection.
\<close>

definition next_clients :: "string \<Rightarrow> (string \<rightharpoonup> bool) \<Rightarrow> tenant \<Rightarrow> string \<Rightarrow> string list" where
  "next_clients app es t c = sort (rebuildClients app (index_bool es c) (seen t c))"

definition needs_write :: "string \<Rightarrow> (string \<rightharpoonup> bool) \<Rightarrow> tenant \<Rightarrow> string \<Rightarrow> bool" where
  "needs_write app es t c \<longleftrightarrow> \<not> stringSlicesEqual (sort (seen t c)) (next_clients app es t c)"

text \<open>The application is in the connection's list exactly once, or not at all, as desired.\<close>

definition settled :: "string \<Rightarrow> (string \<rightharpoonup> bool) \<Rightarrow> tenant \<Rightarrow> string \<Rightarrow> bool" where
  "settled app es t c \<longleftrightarrow>
     count (mset (enabled_clients t c)) app = (if index_bool es c then 1 else 0)"

text \<open>The calls made between tenant \<open>t\<close> and the later tenant \<open>t'\<close>.\<close>

definition issued :: "tenant \<Rightarrow> tenant \<Rightarrow> call list" where
  "issued t t' = drop (length (calls t)) (calls t')"

text \<open>The three components of what \<^verbatim>\<open>applyConnectionState\<close> leaves and returns.\<close>

abbreviation tenant_after :: "tenant \<Rightarrow> string list \<Rightarrow> string \<Rightarrow> string list \<Rightarrow> tenant" where
  "tenant_after t allConnections applicationId enabledConnectionIds \<equiv>
     fst (applyConnectionState t allConnections applicationId enabledConnectionIds)"

abbreviation managed_result :: "tenant \<Rightarrow> string list \<Rightarrow> string \<Rightarrow> string list \<Rightarrow> string list" where
  "managed_result t allConnections applicationId enabledConnectionIds \<equiv>
     fst (snd (applyConnectionState t allConnections applicationId enabledConnectionIds))"

abbreviation error_result :: "tenant \<Rightarrow> string list \<Rightarrow> string \<Rightarrow> string list \<Rightarrow> error option" where
  "error_result t allConnections applicationId enabledConnectionIds \<equiv>
     snd (snd (applyConnectionState t allConnections applicationId enabledConnectionIds))"

text \<open>The connection a call addresses.\<close>

fun connection_of :: "call \<Rightarrow> string" where
  "connection_of (Read connectionId) = connectionId"
| "connection_of (Write connectionId enabledClients) = connectionId"

subsection \<open>Example tenants\<close>

text \<open>
  Two connections, \<open>c1\<close> with clients \<open>app2\<close> and \<open>c2\<close> with clients \<open>app1\<close>, \<open>app2\<close>; every
  request is answered with 200.
\<close>

definition example_tenant :: tenant where
  "example_tenant =
     \<lparr>enabled_clients = (\<lambda>_. [])(''c1'' := [''app2''], ''c2'' := [''app1'', ''app2'']),
      get_answer = (\<lambda>_. Response 200 []),
      get_decode_error = (\<lambda>_. None),
      patch_answer = (\<lambda>_. Response 200 []),
      calls = []\<rparr>"

text \<open>The same tenant, answering 404 to the read of \<open>c1\<close>.\<close>

definition refusing_tenant :: tenant where
  "refusing_tenant =
     example_tenant\<lparr>get_answer := (\<lambda>_. Response 200 [])(''c1'' := Response 404 [])\<rparr>"

text \<open>The same tenant, answering 403 to the update of \<open>c2\<close>.\<close>

definition failing_tenant :: tenant where
  "failing_tenant =
     example_tenant\<lparr>patch_answer := (\<lambda>_. Response 200 [])(''c2'' := Response 403 ''forbidden'')\<rparr>"

text \<open>A tenant whose connection \<open>c1\<close> lists \<open>app2\<close> twice.\<close>

definition duplicates_tenant :: tenant where
  "duplicates_tenant =
     example_tenant\<lparr>enabled_clients := (\<lambda>_. [])(''c1'' := [''app2'', ''app2''])\<rparr>"

section \<open>Properties of the helpers\<close>

lemma stringSlicesEqual_from_iff:
  "length a = length b \<Longrightarrow>
   stringSlicesEqual_from i a b \<longleftrightarrow> (\<forall>j. i \<le> j \<and> j < length a \<longrightarrow> a ! j = b ! j)"
proof (induction i a b rule: stringSlicesEqual_from.induct)
  case (1 i a b)
  show ?case
  proof (cases "i < length a")
    case False
    then show ?thesis by (auto simp: stringSlicesEqual_from.simps [of i a b])
  next
    case True
    show ?thesis
    proof (cases "a ! i = b ! i")
      case False
      with True show ?thesis
        by (auto simp: stringSlicesEqual_from.simps [of i a b])
    next
      case eq: True
      have "stringSlicesEqual_from i a b = stringSlicesEqual_from (Suc i) a b"
        using True eq by (simp add: stringSlicesEqual_from.simps [of i a b])
      also have "\<dots> \<longleftrightarrow> (\<forall>j. Suc i \<le> j \<and> j < length a \<longrightarrow> a ! j = b ! j)"
        using "1.IH" [OF True _ "1.prems"] eq by simp
      also have "\<dots> \<longleftrightarrow> (\<forall>j. i \<le> j \<and> j < length a \<longrightarrow> a ! j = b ! j)"
        using eq by (metis Suc_leI le_neq_implies_less Suc_leD)
      finally show ?thesis .
    qed
  qed
qed

lemma stringSlicesEqual_iff: "stringSlicesEqual a b \<longleftrightarrow> a = b"
  by (auto simp: stringSlicesEqual_def stringSlicesEqual_from_iff list_eq_iff_nth_eq)

lemma index_bool_foldl:
  "index_bool (foldl (\<lambda>enabledSet connId. enabledSet(connId \<mapsto> True)) m ids) c
     \<longleftrightarrow> c \<in> set ids \<or> index_bool m c"
  by (induction ids arbitrary: m) (auto simp: index_bool_def)

lemma index_bool_makeEnabledSet: "index_bool (makeEnabledSet ids) c \<longleftrightarrow> c \<in> set ids"
  by (simp add: makeEnabledSet_def index_bool_foldl) (simp add: index_bool_def)

lemma sort_eq_iff_mset: "sort xs = sort ys \<longleftrightarrow> mset xs = mset (ys :: 'a :: linorder list)"
  by (metis mset_sort sorted_list_of_multiset_mset)

lemma mset_rebuildClients:
  "mset (rebuildClients app d cur) =
     filter_mset (\<lambda>x. x \<noteq> app) (mset cur) + (if d then {#app#} else {#})"
  by (simp add: rebuildClients_def)

lemma rebuild_same_iff:
  "mset (rebuildClients app d cur) = mset cur \<longleftrightarrow> count (mset cur) app = (if d then 1 else 0)"
proof
  assume h: "mset (rebuildClients app d cur) = mset cur"
  have "count (mset (rebuildClients app d cur)) app = (if d then 1 else 0)"
    by (simp add: mset_rebuildClients)
  with h show "count (mset cur) app = (if d then 1 else 0)" by simp
next
  assume h: "count (mset cur) app = (if d then 1 else 0)"
  show "mset (rebuildClients app d cur) = mset cur"
    by (rule multiset_eqI) (use h in \<open>auto simp: mset_rebuildClients\<close>)
qed

subsection \<open>One iteration of the loop\<close>

lemma getConnectionClients_eq:
  "getConnectionClients t c = (t\<lparr>calls := calls t @ [Read c]\<rparr>, seen t c, read_error t c)"
  by (simp add: seen_def read_error_def getConnectionClients_def Let_def
      split: answer.splits option.splits)

lemma updateConnectionClients_ok:
  "write_error t c = None \<Longrightarrow>
   updateConnectionClients t c xs =
     (t\<lparr>calls := calls t @ [Write c xs], enabled_clients := (enabled_clients t)(c := xs)\<rparr>, None)"
  by (simp add: write_error_def updateConnectionClients_def Let_def
      split: answer.splits if_splits)

lemma updateConnectionClients_fail:
  "write_error t c = Some e \<Longrightarrow>
   updateConnectionClients t c xs = (t\<lparr>calls := calls t @ [Write c xs]\<rparr>, Some e)"
  by (auto simp add: write_error_def updateConnectionClients_def Let_def
      split: answer.splits if_splits)

lemma write_error_logged [simp]:
  "write_error (t\<lparr>calls := l\<rparr>) c = write_error t c"
  by (simp add: write_error_def updateConnectionClients_def Let_def split: answer.splits)

lemma write_error_None_iff: "write_error t c = None \<longleftrightarrow> write_succeeds t c"
  by (simp add: write_error_def write_succeeds_def updateConnectionClients_def Let_def
      split: answer.splits)

lemma read_succeeds_seen:
  "read_succeeds t c \<Longrightarrow> seen t c = enabled_clients t c \<and> read_error t c = None"
  by (simp add: read_succeeds_def seen_def read_error_def getConnectionClients_def Let_def
      split: answer.splits)

lemma not_read_succeeds_seen: "\<not> read_succeeds t c \<Longrightarrow> seen t c = []"
  by (auto simp add: read_succeeds_def seen_def getConnectionClients_def Let_def
      split: answer.splits option.splits)

lemma needs_write_iff:
  "needs_write app es t c \<longleftrightarrow>
     count (mset (seen t c)) app \<noteq> (if index_bool es c then 1 else 0)"
  by (simp add: needs_write_def next_clients_def stringSlicesEqual_iff sort_eq_iff_mset
        rebuild_same_iff eq_commute [of "mset (seen t c)"])

lemma loop_skip:
  "read_error t c = Some e \<Longrightarrow>
   applyConnectionState_loop app es (c # cs) m t =
     applyConnectionState_loop app es cs m (t\<lparr>calls := calls t @ [Read c]\<rparr>)"
  by (simp add: applyConnectionState_loop.simps(2) getConnectionClients_eq)

lemma loop_keep:
  "read_error t c = None \<Longrightarrow> \<not> needs_write app es t c \<Longrightarrow>
   applyConnectionState_loop app es (c # cs) m t =
     applyConnectionState_loop app es cs m (t\<lparr>calls := calls t @ [Read c]\<rparr>)"
  by (simp add: applyConnectionState_loop.simps(2) getConnectionClients_eq needs_write_def next_clients_def)

lemma loop_put:
  "read_error t c = None \<Longrightarrow> needs_write app es t c \<Longrightarrow> write_error t c = None \<Longrightarrow>
   applyConnectionState_loop app es (c # cs) m t =
     applyConnectionState_loop app es cs (m @ [c])
       (t\<lparr>calls := calls t @ [Read c, Write c (next_clients app es t c)],
          enabled_clients := (enabled_clients t)(c := next_clients app es t c)\<rparr>)"
  by (simp add: applyConnectionState_loop.simps(2) getConnectionClients_eq needs_write_def next_clients_def
        updateConnectionClients_ok Let_def)

lemma loop_fail:
  "read_error t c = None \<Longrightarrow> needs_write app es t c \<Longrightarrow> write_error t c = Some e \<Longrightarrow>
   applyConnectionState_loop app es (c # cs) m t =
     (t\<lparr>calls := calls t @ [Read c, Write c (next_clients app es t c)]\<rparr>, [],
      Some (UpdateConnection c e))"
  by (simp add: applyConnectionState_loop.simps(2) getConnectionClients_eq needs_write_def next_clients_def
        updateConnectionClients_fail Let_def)

lemma read_error_upd [simp]:
  "read_error (t\<lparr>calls := l\<rparr>) c = read_error t c"
  "read_error (t\<lparr>enabled_clients := f\<rparr>) c = read_error t c"
  by (simp_all add: read_error_def getConnectionClients_def Let_def split: answer.splits option.splits)

lemma write_error_upd [simp]:
  "write_error (t\<lparr>enabled_clients := f\<rparr>) c = write_error t c"
  by (simp_all add: write_error_def updateConnectionClients_def Let_def split: answer.splits option.splits)

lemma read_succeeds_upd [simp]:
  "read_succeeds (t\<lparr>calls := l\<rparr>) c = read_succeeds t c"
  "read_succeeds (t\<lparr>enabled_clients := f\<rparr>) c = read_succeeds t c"
  by (simp_all add: read_succeeds_def split: answer.splits)

lemma seen_upd [simp]:
  "seen (t\<lparr>calls := l\<rparr>) c = seen t c"
  "seen (t\<lparr>enabled_clients := f\<rparr>) c = (if read_succeeds t c then f c else [])"
  by (auto simp add: seen_def read_succeeds_def getConnectionClients_def Let_def split: answer.splits option.splits)

lemma needs_write_upd [simp]:
  "needs_write app es (t\<lparr>calls := l\<rparr>) c = needs_write app es t c"
  by (simp add: needs_write_def next_clients_def)

lemma iteration_cases [case_names Skip Keep Put Fail]:
  obtains e where "read_error t c = Some e"
  | "read_error t c = None" "\<not> needs_write app es t c"
  | "read_error t c = None" "needs_write app es t c" "write_error t c = None"
  | e where "read_error t c = None" "needs_write app es t c" "write_error t c = Some e"
  by (cases "read_error t c"; cases "needs_write app es t c"; cases "write_error t c") auto

subsection \<open>What the loop leaves unchanged, and the calls it makes\<close>

lemma loop_frame:
  "get_answer (fst (applyConnectionState_loop app es cs m t)) = get_answer t \<and>
   get_decode_error (fst (applyConnectionState_loop app es cs m t)) = get_decode_error t \<and>
   patch_answer (fst (applyConnectionState_loop app es cs m t)) = patch_answer t"
proof (induction cs arbitrary: m t)
  case Nil
  show ?case by simp
next
  case (Cons c cs)
  show ?case
  proof (cases rule: iteration_cases [where t = t and c = c and app = app and es = es])
    case (Skip e)
    then show ?thesis by (simp add: loop_skip Cons.IH)
  next
    case Keep
    then show ?thesis by (simp add: loop_keep Cons.IH)
  next
    case Put
    then show ?thesis by (simp add: loop_put Cons.IH)
  next
    case (Fail e)
    then show ?thesis by (simp add: loop_fail)
  qed
qed

lemma read_succeeds_loop [simp]:
  "read_succeeds (fst (applyConnectionState_loop app es cs m t)) c = read_succeeds t c"
  using loop_frame [of app es cs m t] by (simp add: read_succeeds_def split: answer.splits)

lemma loop_calls_prefix:
  "\<exists>evs. calls (fst (applyConnectionState_loop app es cs m t)) = calls t @ evs"
proof (induction cs arbitrary: m t)
  case Nil
  show ?case by simp
next
  case (Cons c cs)
  show ?case
  proof (cases rule: iteration_cases [where t = t and c = c and app = app and es = es])
    case (Skip e)
    obtain evs where "calls (fst (applyConnectionState_loop app es cs m
        (t\<lparr>calls := calls t @ [Read c]\<rparr>))) = (calls t @ [Read c]) @ evs"
      using Cons.IH [of m "t\<lparr>calls := calls t @ [Read c]\<rparr>"] by auto
    with Skip show ?thesis by (simp add: loop_skip)
  next
    case Keep
    obtain evs where "calls (fst (applyConnectionState_loop app es cs m
        (t\<lparr>calls := calls t @ [Read c]\<rparr>))) = (calls t @ [Read c]) @ evs"
      using Cons.IH [of m "t\<lparr>calls := calls t @ [Read c]\<rparr>"] by auto
    with Keep show ?thesis by (simp add: loop_keep)
  next
    case Put
    define t1 where "t1 = t\<lparr>calls := calls t @ [Read c, Write c (next_clients app es t c)],
          enabled_clients := (enabled_clients t)(c := next_clients app es t c)\<rparr>"
    obtain evs where "calls (fst (applyConnectionState_loop app es cs (m @ [c]) t1)) =
        calls t1 @ evs"
      using Cons.IH [of "m @ [c]" t1] by auto
    with Put show ?thesis by (simp add: loop_put t1_def)
  next
    case (Fail e)
    then show ?thesis by (simp add: loop_fail)
  qed
qed

lemma calls_loop:
  "calls (fst (applyConnectionState_loop app es cs m t)) =
     calls t @ issued t (fst (applyConnectionState_loop app es cs m t))"
  using loop_calls_prefix [of app es cs m t] by (auto simp: issued_def)

lemma issued_append:
  "calls t1 = calls t @ evs \<Longrightarrow>
   issued t (fst (applyConnectionState_loop app es cs m t1)) =
     evs @ issued t1 (fst (applyConnectionState_loop app es cs m t1))"
  using loop_calls_prefix [of app es cs m t1] by (auto simp: issued_def)

lemma issued_skip:
  "read_error t c = Some e \<Longrightarrow>
   issued t (fst (applyConnectionState_loop app es (c # cs) m t)) =
     Read c # issued (t\<lparr>calls := calls t @ [Read c]\<rparr>)
       (fst (applyConnectionState_loop app es cs m (t\<lparr>calls := calls t @ [Read c]\<rparr>)))"
  using issued_append [of "t\<lparr>calls := calls t @ [Read c]\<rparr>" t "[Read c]" app es cs m]
  by (simp add: loop_skip)

lemma issued_keep:
  "read_error t c = None \<Longrightarrow> \<not> needs_write app es t c \<Longrightarrow>
   issued t (fst (applyConnectionState_loop app es (c # cs) m t)) =
     Read c # issued (t\<lparr>calls := calls t @ [Read c]\<rparr>)
       (fst (applyConnectionState_loop app es cs m (t\<lparr>calls := calls t @ [Read c]\<rparr>)))"
  using issued_append [of "t\<lparr>calls := calls t @ [Read c]\<rparr>" t "[Read c]" app es cs m]
  by (simp add: loop_keep)

lemma issued_put:
  "read_error t c = None \<Longrightarrow> needs_write app es t c \<Longrightarrow> write_error t c = None \<Longrightarrow>
   t1 = t\<lparr>calls := calls t @ [Read c, Write c (next_clients app es t c)],
          enabled_clients := (enabled_clients t)(c := next_clients app es t c)\<rparr> \<Longrightarrow>
   issued t (fst (applyConnectionState_loop app es (c # cs) m t)) =
     Read c # Write c (next_clients app es t c) #
       issued t1 (fst (applyConnectionState_loop app es cs (m @ [c]) t1))"
  using issued_append [of t1 t "[Read c, Write c (next_clients app es t c)]" app es cs "m @ [c]"]
  by (simp add: loop_put)

lemma issued_fail:
  "read_error t c = None \<Longrightarrow> needs_write app es t c \<Longrightarrow> write_error t c = Some e \<Longrightarrow>
   issued t (fst (applyConnectionState_loop app es (c # cs) m t)) =
     [Read c, Write c (next_clients app es t c)]"
  by (simp add: loop_fail issued_def)

lemma issued_Nil [simp]: "issued t (fst (applyConnectionState_loop app es [] m t)) = []"
  by (simp add: issued_def)

lemma read_cases:
  "(read_succeeds t c \<and> \<not> read_refused t c \<and> read_error t c = None) \<or>
   (\<not> read_succeeds t c \<and> read_refused t c \<and> read_error t c = None) \<or>
   (\<not> read_succeeds t c \<and> \<not> read_refused t c \<and> read_error t c \<noteq> None)"
  by (simp add: read_succeeds_def read_refused_def read_error_def getConnectionClients_def Let_def
      split: answer.splits option.splits)

subsection \<open>Invariants of the loop\<close>

lemma settled_upd [simp]: "settled app es (t\<lparr>calls := l\<rparr>) c = settled app es t c"
  by (simp add: settled_def)

lemma count_next_clients:
  "count (mset (next_clients app es t c)) app = (if index_bool es c then 1 else 0)"
  by (simp add: next_clients_def mset_rebuildClients)

lemma others_next_clients:
  "filter_mset (\<lambda>x. x \<noteq> app) (mset (next_clients app es t c)) =
     filter_mset (\<lambda>x. x \<noteq> app) (mset (seen t c))"
  by (simp add: next_clients_def mset_rebuildClients filter_filter_mset)

lemma loop_no_error_if_writes_succeed:
  "\<forall>c \<in> set cs. write_succeeds t c \<Longrightarrow>
   snd (snd (applyConnectionState_loop app es cs m t)) = None"
proof (induction cs arbitrary: m t)
  case Nil
  show ?case by simp
next
  case (Cons c cs)
  have ws: "\<And>l f. \<forall>k \<in> set cs. write_succeeds (t\<lparr>calls := l\<rparr>) k"
    "\<And>l f. \<forall>k \<in> set cs. write_succeeds (t\<lparr>calls := l, enabled_clients := f\<rparr>) k"
    using Cons.prems by (simp_all add: write_succeeds_def)
  show ?case
  proof (cases rule: iteration_cases [where t = t and c = c and app = app and es = es])
    case (Skip e)
    then show ?thesis by (simp add: loop_skip Cons.IH ws)
  next
    case Keep
    then show ?thesis by (simp add: loop_keep Cons.IH ws)
  next
    case Put
    then show ?thesis by (simp add: loop_put Cons.IH ws)
  next
    case (Fail e)
    with Cons.prems show ?thesis by (simp add: write_error_None_iff [symmetric])
  qed
qed

lemma settled_preserved:
  "read_succeeds t c \<Longrightarrow> settled app es t c \<Longrightarrow>
   settled app es (fst (applyConnectionState_loop app es cs m t)) c"
proof (induction cs arbitrary: m t)
  case Nil
  then show ?case by simp
next
  case (Cons d cs)
  show ?case
  proof (cases rule: iteration_cases [where t = t and c = d and app = app and es = es])
    case (Skip e)
    then show ?thesis using Cons.prems by (simp add: loop_skip Cons.IH)
  next
    case Keep
    then show ?thesis using Cons.prems by (simp add: loop_keep Cons.IH)
  next
    case Put
    have "settled app es (t\<lparr>calls := calls t @ [Read d, Write d (next_clients app es t d)],
          enabled_clients := (enabled_clients t)(d := next_clients app es t d)\<rparr>) c"
    proof (cases "d = c")
      case True
      have "count (mset (next_clients app es t c)) app = (if index_bool es c then 1 else 0)"
        by (rule count_next_clients)
      then show ?thesis using True unfolding settled_def by simp
    next
      case False
      then show ?thesis using Cons.prems(2) unfolding settled_def by simp
    qed
    then show ?thesis using Put Cons.prems(1) by (simp add: loop_put Cons.IH)
  next
    case (Fail e)
    then show ?thesis using Cons.prems by (simp add: loop_fail)
  qed
qed

lemma settled_after:
  "snd (snd (applyConnectionState_loop app es cs m t)) = None \<Longrightarrow> c \<in> set cs \<Longrightarrow>
   read_succeeds t c \<Longrightarrow>
   settled app es (fst (applyConnectionState_loop app es cs m t)) c"
proof (induction cs arbitrary: m t)
  case Nil
  then show ?case by simp
next
  case (Cons d cs)
  note rs = read_succeeds_seen [OF Cons.prems(3)]
  show ?case
  proof (cases rule: iteration_cases [where t = t and c = d and app = app and es = es])
    case (Skip e)
    with rs have "d \<noteq> c" by auto
    with Cons.prems Skip show ?thesis by (simp add: loop_skip Cons.IH)
  next
    case Keep
    show ?thesis
    proof (cases "d = c")
      case True
      with Keep rs have "settled app es t c" by (simp add: needs_write_iff settled_def)
      with Keep Cons.prems(3) True show ?thesis by (simp add: loop_keep settled_preserved)
    next
      case False
      with Cons.prems Keep show ?thesis by (simp add: loop_keep Cons.IH)
    qed
  next
    case Put
    show ?thesis
    proof (cases "d = c")
      case True
      have "count (mset (next_clients app es t c)) app = (if index_bool es c then 1 else 0)"
        by (rule count_next_clients)
      then have "settled app es (t\<lparr>calls := calls t @ [Read d, Write d (next_clients app es t d)],
          enabled_clients := (enabled_clients t)(d := next_clients app es t d)\<rparr>) c"
        using True unfolding settled_def by simp
      with Put Cons.prems(3) show ?thesis by (simp add: loop_put settled_preserved)
    next
      case False
      with Cons.prems Put show ?thesis by (simp add: loop_put Cons.IH)
    qed
  next
    case (Fail e)
    with Cons.prems(1) show ?thesis by (simp add: loop_fail)
  qed
qed

lemma others_preserved:
  "read_succeeds t c \<Longrightarrow>
   filter_mset (\<lambda>x. x \<noteq> app) (mset (enabled_clients (fst (applyConnectionState_loop app es cs m t)) c)) =
   filter_mset (\<lambda>x. x \<noteq> app) (mset (enabled_clients t c))"
proof (induction cs arbitrary: m t)
  case Nil
  then show ?case by simp
next
  case (Cons d cs)
  show ?case
  proof (cases rule: iteration_cases [where t = t and c = d and app = app and es = es])
    case (Skip e)
    then show ?thesis using Cons.prems by (simp add: loop_skip Cons.IH)
  next
    case Keep
    then show ?thesis using Cons.prems by (simp add: loop_keep Cons.IH)
  next
    case Put
    show ?thesis
    proof (cases "d = c")
      case True
      with Put Cons.prems read_succeeds_seen [OF Cons.prems] show ?thesis
        by (simp add: loop_put Cons.IH others_next_clients)
    next
      case False
      with Put Cons.prems show ?thesis by (simp add: loop_put Cons.IH)
    qed
  next
    case (Fail e)
    then show ?thesis using Cons.prems by (simp add: loop_fail)
  qed
qed

lemma loop_quiet:
  "\<forall>c \<in> set cs. read_error t c = None \<longrightarrow> \<not> needs_write app es t c \<Longrightarrow>
   applyConnectionState_loop app es cs m t = (t\<lparr>calls := calls t @ map Read cs\<rparr>, m, None)"
proof (induction cs arbitrary: m t)
  case Nil
  show ?case by simp
next
  case (Cons c cs)
  have step: "applyConnectionState_loop app es (c # cs) m t =
     applyConnectionState_loop app es cs m (t\<lparr>calls := calls t @ [Read c]\<rparr>)"
    using Cons.prems by (cases "read_error t c") (simp_all add: loop_skip loop_keep)
  have "\<forall>k \<in> set cs. read_error (t\<lparr>calls := calls t @ [Read c]\<rparr>) k = None \<longrightarrow>
          \<not> needs_write app es (t\<lparr>calls := calls t @ [Read c]\<rparr>) k"
    using Cons.prems by simp
  from Cons.IH [OF this] step show ?case by simp
qed

lemma loop_error_nil:
  "snd (snd (applyConnectionState_loop app es cs m t)) = Some e \<Longrightarrow>
   fst (snd (applyConnectionState_loop app es cs m t)) = []"
proof (induction cs arbitrary: m t)
  case Nil
  then show ?case by simp
next
  case (Cons c cs)
  show ?case
  proof (cases rule: iteration_cases [where t = t and c = c and app = app and es = es])
    case (Skip e)
    then show ?thesis using Cons.prems by (simp add: loop_skip Cons.IH)
  next
    case Keep
    then show ?thesis using Cons.prems by (simp add: loop_keep Cons.IH)
  next
    case Put
    then show ?thesis using Cons.prems by (simp add: loop_put Cons.IH)
  next
    case (Fail e)
    then show ?thesis by (simp add: loop_fail)
  qed
qed

lemma settled_member:
  assumes "settled app es t c"
  shows "app \<in> set (enabled_clients t c) \<longleftrightarrow> index_bool es c"
proof (cases "index_bool es c")
  case True
  with assms have "count (mset (enabled_clients t c)) app \<noteq> 0" by (simp add: settled_def)
  then have "app \<in> set (enabled_clients t c)" by (simp only: count_mset_0_iff) simp
  with True show ?thesis by simp
next
  case False
  with assms have "count (mset (enabled_clients t c)) app = 0" by (simp add: settled_def)
  then have "app \<notin> set (enabled_clients t c)" by simp
  with False show ?thesis by simp
qed

lemma read_error_loop [simp]:
  "read_error (fst (applyConnectionState_loop app es cs m t)) c = read_error t c"
  using loop_frame [of app es cs m t]
  by (simp add: read_error_def getConnectionClients_def Let_def split: answer.splits option.splits)

lemma write_error_loop [simp]:
  "write_error (fst (applyConnectionState_loop app es cs m t)) c = write_error t c"
  using loop_frame [of app es cs m t]
  by (simp add: write_error_def updateConnectionClients_def Let_def split: answer.splits)

lemma read_refused_loop [simp]:
  "read_refused (fst (applyConnectionState_loop app es cs m t)) c = read_refused t c"
  using loop_frame [of app es cs m t] by (simp add: read_refused_def)

lemma seen_eq: "seen t c = (if read_succeeds t c then enabled_clients t c else [])"
  by (simp add: read_succeeds_seen not_read_succeeds_seen)

lemma loop_append:
  "applyConnectionState_loop app es (pre @ rest) m t =
     (case applyConnectionState_loop app es pre m t of
        (t1, m1, None) \<Rightarrow> applyConnectionState_loop app es rest m1 t1
      | (t1, m1, Some e) \<Rightarrow> (t1, m1, Some e))"
proof (induction pre arbitrary: m t)
  case Nil
  show ?case by simp
next
  case (Cons c pre)
  show ?case
  proof (cases rule: iteration_cases [where t = t and c = c and app = app and es = es])
    case (Skip e)
    then show ?thesis by (simp add: loop_skip Cons.IH)
  next
    case Keep
    then show ?thesis by (simp add: loop_keep Cons.IH)
  next
    case Put
    then show ?thesis by (simp add: loop_put Cons.IH)
  next
    case (Fail e)
    then show ?thesis by (simp add: loop_fail)
  qed
qed

text \<open>
  In particular the loop on \<open>c # rest\<close> is the loop on the single connection \<open>c\<close>, which is
  one iteration, followed by the loop on \<open>rest\<close> unless the iteration failed.
\<close>

lemma loop_Cons_iteration:
  "applyConnectionState_loop app es (c # rest) m t =
     (case applyConnectionState_loop app es [c] m t of
        (t1, m1, None) \<Rightarrow> applyConnectionState_loop app es rest m1 t1
      | (t1, m1, Some e) \<Rightarrow> (t1, m1, Some e))"
  using loop_append [of app es "[c]" rest m t] by simp

lemma quiet_after:
  assumes ok: "snd (snd (applyConnectionState_loop app es cs [] t)) = None"
    and want: "\<forall>c \<in> set cs. index_bool es c \<longrightarrow> \<not> read_refused t c"
    and c: "c \<in> set cs"
    and r: "read_error (fst (applyConnectionState_loop app es cs [] t)) c = None"
  shows "\<not> needs_write app es (fst (applyConnectionState_loop app es cs [] t)) c"
proof -
  let ?t1 = "fst (applyConnectionState_loop app es cs [] t)"
  from r have r0: "read_error t c = None" by simp
  show ?thesis
  proof (cases "read_succeeds t c")
    case True
    then have "settled app es ?t1 c" using ok c by (simp add: settled_after)
    moreover have "seen ?t1 c = enabled_clients ?t1 c" using True by (simp add: seen_eq)
    ultimately show ?thesis by (simp add: needs_write_iff settled_def)
  next
    case False
    with r0 read_cases [of t c] have "read_refused t c" by auto
    with want c have "\<not> index_bool es c" by auto
    moreover have "seen ?t1 c = []" using False by (simp add: seen_eq)
    ultimately show ?thesis by (simp add: needs_write_iff)
  qed
qed

subsection \<open>The lists written, the connections addressed and the connections reported\<close>

lemma issued_same [simp]: "issued t t = []"
  by (simp add: issued_def)

lemma distinct_next_clients:
  "distinct (seen t c) \<Longrightarrow> distinct (next_clients app es t c)"
  by (simp add: next_clients_def rebuildClients_def Let_def)

lemma written_app_once:
  "Write c xs \<in> set (issued t (fst (applyConnectionState_loop app es cs m t))) \<Longrightarrow>
   count (mset xs) app \<le> 1"
proof (induction cs arbitrary: m t)
  case Nil
  then show ?case by simp
next
  case (Cons d cs)
  have nx: "count (mset (next_clients app es t d)) app \<le> 1"
    by (simp add: count_next_clients)
  show ?case
  proof (cases rule: iteration_cases [where t = t and c = d and app = app and es = es])
    case (Skip e)
    with Cons.prems Cons.IH show ?thesis by (auto simp: issued_skip)
  next
    case Keep
    with Cons.prems Cons.IH show ?thesis by (auto simp: issued_keep)
  next
    case Put
    with Cons.prems Cons.IH nx show ?thesis by (auto simp: issued_put)
  next
    case (Fail e)
    with Cons.prems nx show ?thesis by (auto simp: issued_fail)
  qed
qed

lemma written_distinct:
  "\<forall>k. distinct (enabled_clients t k) \<Longrightarrow>
   Write c xs \<in> set (issued t (fst (applyConnectionState_loop app es cs m t))) \<Longrightarrow>
   distinct xs"
proof (induction cs arbitrary: m t)
  case Nil
  then show ?case by simp
next
  case (Cons d cs)
  have "distinct (seen t d)" using Cons.prems(1) by (simp add: seen_eq)
  then have nx: "distinct (next_clients app es t d)" by (rule distinct_next_clients)
  show ?case
  proof (cases rule: iteration_cases [where t = t and c = d and app = app and es = es])
    case (Skip e)
    have "\<forall>k. distinct (enabled_clients (t\<lparr>calls := calls t @ [Read d]\<rparr>) k)"
      using Cons.prems(1) by simp
    from Cons.IH [OF this] Cons.prems(2) Skip show ?thesis by (auto simp: issued_skip)
  next
    case Keep
    have "\<forall>k. distinct (enabled_clients (t\<lparr>calls := calls t @ [Read d]\<rparr>) k)"
      using Cons.prems(1) by simp
    from Cons.IH [OF this] Cons.prems(2) Keep show ?thesis by (auto simp: issued_keep)
  next
    case Put
    have "\<forall>k. distinct (enabled_clients
        (t\<lparr>calls := calls t @ [Read d, Write d (next_clients app es t d)],
           enabled_clients := (enabled_clients t)(d := next_clients app es t d)\<rparr>) k)"
      using Cons.prems(1) nx by simp
    from Cons.IH [OF this] Cons.prems(2) Put nx show ?thesis by (auto simp: issued_put)
  next
    case (Fail e)
    with Cons.prems nx show ?thesis by (auto simp: issued_fail)
  qed
qed

lemma needs_write_cong_es:
  "index_bool es c = index_bool es' c \<Longrightarrow> needs_write app es t c = needs_write app es' t c"
  by (simp add: needs_write_def next_clients_def)

lemma next_clients_cong_es:
  "index_bool es c = index_bool es' c \<Longrightarrow> next_clients app es t c = next_clients app es' t c"
  by (simp add: next_clients_def)

lemma loop_cong_es:
  "\<forall>c \<in> set cs. index_bool es c = index_bool es' c \<Longrightarrow>
   applyConnectionState_loop app es cs m t = applyConnectionState_loop app es' cs m t"
proof (induction cs arbitrary: m t)
  case Nil
  show ?case by simp
next
  case (Cons c cs)
  have same: "index_bool es c = index_bool es' c" using Cons.prems by simp
  have rest: "\<forall>k \<in> set cs. index_bool es k = index_bool es' k" using Cons.prems by simp
  note nw = needs_write_cong_es [OF same, of app t] and nx = next_clients_cong_es [OF same, of app t]
  show ?case
  proof (cases rule: iteration_cases [where t = t and c = c and app = app and es = es])
    case (Skip e)
    then show ?thesis by (simp add: loop_skip Cons.IH [OF rest])
  next
    case Keep
    then show ?thesis using nw by (simp add: loop_keep Cons.IH [OF rest])
  next
    case Put
    then show ?thesis using nw nx by (simp add: loop_put Cons.IH [OF rest])
  next
    case (Fail e)
    then show ?thesis using nw nx by (simp add: loop_fail)
  qed
qed

lemma calls_within_list:
  "x \<in> set (issued t (fst (applyConnectionState_loop app es cs m t))) \<Longrightarrow>
   connection_of x \<in> set cs"
proof (induction cs arbitrary: m t)
  case Nil
  then show ?case by simp
next
  case (Cons c cs)
  show ?case
  proof (cases rule: iteration_cases [where t = t and c = c and app = app and es = es])
    case (Skip e)
    with Cons.prems Cons.IH show ?thesis by (auto simp: issued_skip)
  next
    case Keep
    with Cons.prems Cons.IH show ?thesis by (auto simp: issued_keep)
  next
    case Put
    with Cons.prems Cons.IH show ?thesis by (auto simp: issued_put)
  next
    case (Fail e)
    with Cons.prems show ?thesis by (auto simp: issued_fail)
  qed
qed

lemma managed_subseq:
  "fst (snd (applyConnectionState_loop app es cs m t)) = [] \<or>
   (\<exists>ms. fst (snd (applyConnectionState_loop app es cs m t)) = m @ ms \<and> subseq ms cs)"
proof (induction cs arbitrary: m t)
  case Nil
  show ?case by simp
next
  case (Cons c cs)
  show ?case
  proof (cases rule: iteration_cases [where t = t and c = c and app = app and es = es])
    case (Skip e)
    with Cons.IH [of m "t\<lparr>calls := calls t @ [Read c]\<rparr>"] show ?thesis
      by (auto simp: loop_skip)
  next
    case Keep
    with Cons.IH [of m "t\<lparr>calls := calls t @ [Read c]\<rparr>"] show ?thesis
      by (auto simp: loop_keep)
  next
    case Put
    with Cons.IH [of "m @ [c]" "t\<lparr>calls := calls t @ [Read c, Write c (next_clients app es t c)],
          enabled_clients := (enabled_clients t)(c := next_clients app es t c)\<rparr>"]
    show ?thesis by (auto simp: loop_put)
  next
    case (Fail e)
    then show ?thesis by (simp add: loop_fail)
  qed
qed

text \<open>What an iteration does with a connection whose read fails.\<close>

lemma read_failure_iteration:
  "read_error t c = Some e \<Longrightarrow>
     issued t (fst (applyConnectionState_loop app es [c] m t)) = [Read c]"
  "read_refused t c \<Longrightarrow> \<not> index_bool es c \<Longrightarrow>
     issued t (fst (applyConnectionState_loop app es [c] m t)) = [Read c]"
  "read_refused t c \<Longrightarrow> index_bool es c \<Longrightarrow>
     issued t (fst (applyConnectionState_loop app es [c] m t)) = [Read c, Write c [app]]"
proof -
  show "read_error t c = Some e \<Longrightarrow>
     issued t (fst (applyConnectionState_loop app es [c] m t)) = [Read c]"
    by (simp add: issued_skip)
next
  assume r: "read_refused t c" and d: "\<not> index_bool es c"
  from r read_cases [of t c] have e: "read_error t c = None" and s: "seen t c = []"
    by (auto simp: seen_eq)
  with d have "\<not> needs_write app es t c" by (simp add: needs_write_iff)
  with e show "issued t (fst (applyConnectionState_loop app es [c] m t)) = [Read c]"
    by (simp add: issued_keep)
next
  assume r: "read_refused t c" and d: "index_bool es c"
  from r read_cases [of t c] have e: "read_error t c = None" and s: "seen t c = []"
    by (auto simp: seen_eq)
  with d have nw: "needs_write app es t c" by (simp add: needs_write_iff)
  have nx: "next_clients app es t c = [app]"
    using s d by (simp add: next_clients_def rebuildClients_def)
  show "issued t (fst (applyConnectionState_loop app es [c] m t)) = [Read c, Write c [app]]"
  proof (cases "write_error t c")
    case None
    with e nw nx show ?thesis by (simp add: issued_put)
  next
    case (Some e')
    with e nw nx show ?thesis by (simp add: issued_fail)
  qed
qed

section \<open>Runs in which no desired connection refuses its read\<close>

text \<open>
  The tenant answers a request on a connection in the same way throughout, so a second run
  meets the answers of the first. After a first run that returned no error, and provided no
  desired connection of the list answers its read with a status other than 200, a second run
  with the same application and desired list only reads each connection of the list once: it
  makes no write, returns no managed connection and no error.
\<close>

lemma second_run_idle:
  assumes "error_result t allConnections applicationId enabledConnectionIds = None"
    and "\<forall>c \<in> set allConnections. c \<in> set enabledConnectionIds \<longrightarrow> \<not> read_refused t c"
  shows "issued (tenant_after t allConnections applicationId enabledConnectionIds)
           (tenant_after (tenant_after t allConnections applicationId enabledConnectionIds)
              allConnections applicationId enabledConnectionIds)
         = map Read allConnections
       \<and> managed_result (tenant_after t allConnections applicationId enabledConnectionIds)
           allConnections applicationId enabledConnectionIds = []
       \<and> error_result (tenant_after t allConnections applicationId enabledConnectionIds)
           allConnections applicationId enabledConnectionIds = None"
proof -
  let ?es = "makeEnabledSet enabledConnectionIds"
  let ?t1 = "fst (applyConnectionState_loop applicationId ?es allConnections [] t)"
  have ok: "snd (snd (applyConnectionState_loop applicationId ?es allConnections [] t)) = None"
    using assms(1) by (simp add: applyConnectionState_def)
  have want: "\<forall>c \<in> set allConnections. index_bool ?es c \<longrightarrow> \<not> read_refused t c"
    using assms(2) by (simp add: index_bool_makeEnabledSet)
  have "\<forall>c \<in> set allConnections. read_error ?t1 c = None \<longrightarrow>
          \<not> needs_write applicationId ?es ?t1 c"
    using quiet_after [OF ok want] by blast
  from loop_quiet [OF this, of "[]"] show ?thesis
    by (simp add: applyConnectionState_def issued_def)
qed

text \<open>
  Under the same proviso a write is only made to a connection whose read succeeds, and such a
  connection needs no further write in the same run. The managed list then has no duplicate,
  whatever the fetched list, even one that names a connection twice.
\<close>

lemma read_refused_upd [simp]:
  "read_refused (t\<lparr>calls := l\<rparr>) c = read_refused t c"
  "read_refused (t\<lparr>enabled_clients := f\<rparr>) c = read_refused t c"
  by (simp_all add: read_refused_def)

lemma put_only_if_read_succeeds:
  assumes "read_error t c = None" and "needs_write app es t c"
    and "index_bool es c \<longrightarrow> \<not> read_refused t c"
  shows "read_succeeds t c"
proof (rule ccontr)
  assume ns: "\<not> read_succeeds t c"
  with assms(1) read_cases [of t c] have r: "read_refused t c" by auto
  from ns have "seen t c = []" by (simp add: seen_eq)
  with assms(2) have "index_bool es c" by (simp add: needs_write_iff split: if_splits)
  with assms(3) r show False by simp
qed

lemma managed_distinct_loop:
  assumes "\<forall>c \<in> set cs. index_bool es c \<longrightarrow> \<not> read_refused t c"
    and "distinct m"
    and "\<forall>k \<in> set m. read_succeeds t k \<and> settled app es t k"
  shows "distinct (fst (snd (applyConnectionState_loop app es cs m t)))"
  using assms
proof (induction cs arbitrary: m t)
  case Nil
  then show ?case by simp
next
  case (Cons c cs)
  show ?case
  proof (cases rule: iteration_cases [where t = t and c = c and app = app and es = es])
    case (Skip e)
    have "distinct (fst (snd (applyConnectionState_loop app es cs m
        (t\<lparr>calls := calls t @ [Read c]\<rparr>))))"
      using Cons.prems by (intro Cons.IH) simp_all
    with Skip show ?thesis by (simp add: loop_skip)
  next
    case Keep
    have "distinct (fst (snd (applyConnectionState_loop app es cs m
        (t\<lparr>calls := calls t @ [Read c]\<rparr>))))"
      using Cons.prems by (intro Cons.IH) simp_all
    with Keep show ?thesis by (simp add: loop_keep)
  next
    case Put
    let ?t1 = "t\<lparr>calls := calls t @ [Read c, Write c (next_clients app es t c)],
          enabled_clients := (enabled_clients t)(c := next_clients app es t c)\<rparr>"
    have rs: "read_succeeds t c"
      using Put(1,2) Cons.prems(1) by (intro put_only_if_read_succeeds [of t c app es]) simp_all
    have fresh: "c \<notin> set m"
    proof
      assume "c \<in> set m"
      with Cons.prems(3) have "settled app es t c" by simp
      with rs have "\<not> needs_write app es t c"
        by (simp add: needs_write_iff settled_def seen_eq)
      with Put(2) show False by simp
    qed
    have new: "settled app es ?t1 c"
      using count_next_clients [of app es t c] unfolding settled_def by simp
    have old: "\<forall>k \<in> set m. read_succeeds ?t1 k \<and> settled app es ?t1 k"
      using Cons.prems(3) fresh by (auto simp: settled_def)
    have "distinct (fst (snd (applyConnectionState_loop app es cs (m @ [c]) ?t1)))"
    proof (intro Cons.IH)
      show "\<forall>k \<in> set cs. index_bool es k \<longrightarrow> \<not> read_refused ?t1 k"
        using Cons.prems(1) by simp
      show "distinct (m @ [c])" using Cons.prems(2) fresh by simp
      show "\<forall>k \<in> set (m @ [c]). read_succeeds ?t1 k \<and> settled app es ?t1 k"
        using old new rs by simp
    qed
    with Put show ?thesis by (simp add: loop_put)
  next
    case (Fail e)
    then show ?thesis by (simp add: loop_fail)
  qed
qed

lemma managed_distinct_unless_refused_desired:
  assumes "\<forall>c \<in> set allConnections. c \<in> set enabledConnectionIds \<longrightarrow> \<not> read_refused t c"
  shows "distinct (managed_result t allConnections applicationId enabledConnectionIds)"
  unfolding applyConnectionState_def
  using assms by (intro managed_distinct_loop) (simp_all add: index_bool_makeEnabledSet)

text \<open>
  With no proviso at all: the desired IDs that are not in the fetched list are ignored. The run
  is the run for the desired list without them, so they cause no error; every call of the run
  addresses a connection of the fetched list, so they are neither read nor written; and the
  managed list is a subsequence of the fetched list, in its order, so they are not reported.
\<close>

lemma unlisted_ids_ignored:
  "applyConnectionState t allConnections applicationId enabledConnectionIds
     = applyConnectionState t allConnections applicationId
         (filter (\<lambda>c. c \<in> set allConnections) enabledConnectionIds)
   \<and> (\<forall>x \<in> set (issued t (tenant_after t allConnections applicationId enabledConnectionIds)).
         connection_of x \<in> set allConnections)
   \<and> subseq (managed_result t allConnections applicationId enabledConnectionIds) allConnections"
proof -
  let ?es = "makeEnabledSet enabledConnectionIds"
  let ?es' = "makeEnabledSet (filter (\<lambda>c. c \<in> set allConnections) enabledConnectionIds)"
  have "\<forall>c \<in> set allConnections. index_bool ?es c = index_bool ?es' c"
    by (simp add: index_bool_makeEnabledSet)
  then have a: "applyConnectionState t allConnections applicationId enabledConnectionIds
     = applyConnectionState t allConnections applicationId
         (filter (\<lambda>c. c \<in> set allConnections) enabledConnectionIds)"
    unfolding applyConnectionState_def by (rule loop_cong_es)
  have b: "\<forall>x \<in> set (issued t (tenant_after t allConnections applicationId enabledConnectionIds)).
         connection_of x \<in> set allConnections"
    unfolding applyConnectionState_def using calls_within_list by blast
  have c: "subseq (managed_result t allConnections applicationId enabledConnectionIds)
      allConnections"
    using managed_subseq [of applicationId ?es allConnections "[]" t]
    unfolding applyConnectionState_def by auto
  from a b c show ?thesis by blast
qed

section \<open>The claims\<close>

subsection \<open>Membership after a run whose requests all succeed\<close>

text \<open>
  Claim C1. Let every read and every write of the connections in the tenant's list succeed.
  After \<^verbatim>\<open>applyConnectionState\<close> has run for an application and a desired list, the
  application is a member of the \<^verbatim>\<open>enabled_clients\<close> of a listed connection if and only
  if the connection is in the desired list.
\<close>

theorem membership_correct:
  assumes "\<forall>c \<in> set allConnections. read_succeeds t c \<and> write_succeeds t c"
    and "c \<in> set allConnections"
  shows "applicationId \<in> set (enabled_clients
            (tenant_after t allConnections applicationId enabledConnectionIds) c)
         \<longleftrightarrow> c \<in> set enabledConnectionIds"
proof -
  let ?es = "makeEnabledSet enabledConnectionIds"
  have "snd (snd (applyConnectionState_loop applicationId ?es allConnections [] t)) = None"
    using assms(1) by (simp add: loop_no_error_if_writes_succeed)
  then have "settled applicationId ?es
      (fst (applyConnectionState_loop applicationId ?es allConnections [] t)) c"
    using assms by (simp add: settled_after)
  from settled_member [OF this] show ?thesis
    by (simp add: applyConnectionState_def index_bool_makeEnabledSet)
qed

theorem membership_correct_witness:
  "read_succeeds example_tenant ''c1'' \<and> write_succeeds example_tenant ''c1''
   \<and> read_succeeds example_tenant ''c2'' \<and> write_succeeds example_tenant ''c2''
   \<and> ''c2'' \<in> set [''c1'', ''c2'']
   \<and> (''app1'' \<in> set (enabled_clients
          (tenant_after example_tenant [''c1'', ''c2''] ''app1'' [''c1'']) ''c2'')
        \<longleftrightarrow> ''c2'' \<in> set [''c1''])"
proof -
  have h: "read_succeeds example_tenant ''c1''" "write_succeeds example_tenant ''c1''"
    "read_succeeds example_tenant ''c2''" "write_succeeds example_tenant ''c2''"
    by (simp_all add: read_succeeds_def write_succeeds_def example_tenant_def)
  then have h1: "\<forall>c \<in> set [''c1'', ''c2''].
      read_succeeds example_tenant c \<and> write_succeeds example_tenant c"
    by simp
  have h2: "''c2'' \<in> set [''c1'', ''c2'']" by simp
  from membership_correct [OF h1 h2, of "''app1''" "[''c1'']"] h h2 show ?thesis by blast
qed

subsection \<open>Other applications\<close>

text \<open>
  Claim C2. For a connection whose read succeeds and an application ID other than the target,
  the ID is a member of the connection's \<^verbatim>\<open>enabled_clients\<close> after a run if and only if it
  was one before; it even occurs as many times as before, so that a run only adds or removes
  the target application.
\<close>

theorem non_interference:
  assumes "read_succeeds t c" and "other \<noteq> applicationId"
  shows "(other \<in> set (enabled_clients
             (tenant_after t allConnections applicationId enabledConnectionIds) c)
           \<longleftrightarrow> other \<in> set (enabled_clients t c))
         \<and> count (mset (enabled_clients
               (tenant_after t allConnections applicationId enabledConnectionIds) c)) other
             = count (mset (enabled_clients t c)) other"
proof -
  let ?t' = "tenant_after t allConnections applicationId enabledConnectionIds"
  have "filter_mset (\<lambda>x. x \<noteq> applicationId) (mset (enabled_clients ?t' c)) =
        filter_mset (\<lambda>x. x \<noteq> applicationId) (mset (enabled_clients t c))"
    using assms(1) by (simp add: applyConnectionState_def others_preserved)
  then have "count (filter_mset (\<lambda>x. x \<noteq> applicationId) (mset (enabled_clients ?t' c))) other =
        count (filter_mset (\<lambda>x. x \<noteq> applicationId) (mset (enabled_clients t c))) other"
    by simp
  with assms(2) have eq: "count (mset (enabled_clients ?t' c)) other =
      count (mset (enabled_clients t c)) other"
    by simp
  have "other \<in> set (enabled_clients ?t' c) \<longleftrightarrow> other \<in> set (enabled_clients t c)"
    using eq by (metis count_mset_0_iff)
  with eq show ?thesis by simp
qed

theorem non_interference_witness:
  "read_succeeds example_tenant ''c2'' \<and> ''app2'' \<noteq> ''app1''
   \<and> (''app2'' \<in> set (enabled_clients
          (tenant_after example_tenant [''c1'', ''c2''] ''app1'' [''c1'']) ''c2'')
        \<longleftrightarrow> ''app2'' \<in> set (enabled_clients example_tenant ''c2''))
   \<and> count (mset (enabled_clients
          (tenant_after example_tenant [''c1'', ''c2''] ''app1'' [''c1'']) ''c2'')) ''app2''
        = count (mset (enabled_clients example_tenant ''c2'')) ''app2''"
proof -
  have h1: "read_succeeds example_tenant ''c2''"
    by (simp add: read_succeeds_def example_tenant_def)
  have h2: "''app2'' \<noteq> ''app1''" by simp
  from non_interference [OF h1 h2, of "[''c1'', ''c2'']" "[''c1'']"] h1 h2 show ?thesis by blast
qed

subsection \<open>A second run\<close>

text \<open>
  Claim C3. A second run of \<^verbatim>\<open>applyConnectionState\<close> right after a first run that returned
  no error, with the same application and desired list and an unchanged tenant, makes no write
  and returns no managed connection. The loop writes \<^verbatim>\<open>Only update if the client list has
  changed\<close>, and its change detection does give this whenever no desired connection refuses
  its read (lemma \<open>second_run_idle\<close>). The refused read breaks it: the tenant below answers
  404 to the read of \<open>c1\<close>, which is desired; the first run reads \<open>c1\<close> as empty, writes the
  list \<open>app1\<close> to it and returns no error; the second run reads \<open>c1\<close> as empty again, writes
  it again and reports it.
\<close>

theorem second_run_writes_again:
  "error_result refusing_tenant [''c1'', ''c2''] ''app1'' [''c1''] = None
   \<and> issued (tenant_after refusing_tenant [''c1'', ''c2''] ''app1'' [''c1''])
        (tenant_after (tenant_after refusing_tenant [''c1'', ''c2''] ''app1'' [''c1''])
           [''c1'', ''c2''] ''app1'' [''c1''])
      = [Read ''c1'', Write ''c1'' [''app1''], Read ''c2'']
   \<and> managed_result (tenant_after refusing_tenant [''c1'', ''c2''] ''app1'' [''c1''])
        [''c1'', ''c2''] ''app1'' [''c1''] = [''c1'']"
  by code_simp

subsection \<open>The list a write carries\<close>




subsection \<open>A connection whose read is refused\<close>

text \<open>
  Claim C5 says that a connection whose read fails, by an error or by a status other than
  200, is never written. The resource's description promises to preserve the access of the
  other applications, and the loop skips a connection it cannot read when the read returns an
  error. A read answered with another status than 200 returns the empty list and no error,
  though, and the loop goes on with it: in the tenant below \<open>c1\<close> holds \<open>app2\<close> and answers
  404 to the read; the run for \<open>app1\<close>, desired on \<open>c1\<close>, writes the list \<open>app1\<close> to \<open>c1\<close>,
  which removes \<open>app2\<close>, and returns no error.
\<close>

theorem refused_read_is_written:
  "read_refused refusing_tenant ''c1''
   \<and> seen refusing_tenant ''c1'' = []
   \<and> read_error refusing_tenant ''c1'' = None
   \<and> enabled_clients refusing_tenant ''c1'' = [''app2'']
   \<and> issued refusing_tenant (tenant_after refusing_tenant [''c1''] ''app1'' [''c1''])
       = [Read ''c1'', Write ''c1'' [''app1'']]
   \<and> enabled_clients (tenant_after refusing_tenant [''c1''] ''app1'' [''c1'']) ''c1''
       = [''app1'']
   \<and> error_result refusing_tenant [''c1''] ''app1'' [''c1''] = None"
  by code_simp

subsection \<open>When a write is made\<close>



subsection \<open>Duplicates in a written list\<close>

text \<open>
  Claim C7, as stated, says that a list sent in a write never contains an ID twice, even when
  the list read does. The survivors are not deduplicated: a connection that lists \<open>app2\<close>
  twice is written with \<open>app2\<close> twice.
\<close>

theorem duplicates_are_written:
  "enabled_clients duplicates_tenant ''c1'' = [''app2'', ''app2'']
   \<and> issued duplicates_tenant (tenant_after duplicates_tenant [''c1''] ''app1'' [''c1''])
       = [Read ''c1'', Write ''c1'' [''app1'', ''app2'', ''app2'']]
   \<and> \<not> distinct [''app1'', ''app2'', ''app2'']"
  by code_simp

text \<open>
  Claim C7, amended. A list sent in a write by a run never contains the target application
  more than once; and when no list the tenant holds has a duplicate, no list sent has one.
\<close>

theorem written_list_duplicates:
  assumes "Write c xs \<in> set (issued t
             (tenant_after t allConnections applicationId enabledConnectionIds))"
  shows "count (mset xs) applicationId \<le> 1
       \<and> ((\<forall>k. distinct (enabled_clients t k)) \<longrightarrow> distinct xs)"
  using assms written_app_once written_distinct
  unfolding applyConnectionState_def by blast

theorem written_list_duplicates_witness:
  "Write ''c1'' [''app1'', ''app2''] \<in> set (issued example_tenant
       (tenant_after example_tenant [''c1'', ''c2''] ''app1'' [''c1'']))
   \<and> (\<forall>k. distinct (enabled_clients example_tenant k))
   \<and> count (mset [''app1'', ''app2'']) ''app1'' \<le> 1
   \<and> distinct [''app1'', ''app2'']"
proof -
  have h: "Write ''c1'' [''app1'', ''app2''] \<in> set (issued example_tenant
       (tenant_after example_tenant [''c1'', ''c2''] ''app1'' [''c1'']))"
    by code_simp
  have d: "\<forall>k. distinct (enabled_clients example_tenant k)"
    by (simp add: example_tenant_def)
  from written_list_duplicates [OF h] h d show ?thesis by blast
qed

subsection \<open>A write that fails\<close>

text \<open>
  Claim C8. Let the run over the connections before \<open>c\<close> return no error, and let the
  iteration on \<open>c\<close> read it, find a change and fail to write it with error \<open>e\<close>. Then the run
  over the whole list returns the error that wraps \<open>e\<close> with the ID of \<open>c\<close>, whose message
  starts with \<^verbatim>\<open>failed to update connection\<close> and the ID; the calls end with the read and
  the write of \<open>c\<close>, so nothing after \<open>c\<close> is read or written; and the tenant holds the lists
  it held after the connections before \<open>c\<close>, so their writes are kept.
\<close>

theorem write_failure_aborts:
  assumes "error_result t pre applicationId enabledConnectionIds = None"
    and "read_error (tenant_after t pre applicationId enabledConnectionIds) c = None"
    and "needs_write applicationId (makeEnabledSet enabledConnectionIds)
           (tenant_after t pre applicationId enabledConnectionIds) c"
    and "write_error (tenant_after t pre applicationId enabledConnectionIds) c = Some e"
  shows "error_result t (pre @ c # post) applicationId enabledConnectionIds
           = Some (UpdateConnection c e)
       \<and> error_message (UpdateConnection c e)
           = ''failed to update connection '' @ c @ '': '' @ error_message e
       \<and> calls (tenant_after t (pre @ c # post) applicationId enabledConnectionIds)
           = calls (tenant_after t pre applicationId enabledConnectionIds)
             @ [Read c, Write c (next_clients applicationId (makeEnabledSet enabledConnectionIds)
                  (tenant_after t pre applicationId enabledConnectionIds) c)]
       \<and> enabled_clients (tenant_after t (pre @ c # post) applicationId enabledConnectionIds)
           = enabled_clients (tenant_after t pre applicationId enabledConnectionIds)"
proof -
  let ?es = "makeEnabledSet enabledConnectionIds"
  obtain t1 m1 where run: "applyConnectionState_loop applicationId ?es pre [] t = (t1, m1, None)"
    using assms(1) unfolding applyConnectionState_def
    by (metis prod.collapse)
  have t1: "tenant_after t pre applicationId enabledConnectionIds = t1"
    using run by (simp add: applyConnectionState_def)
  have "applyConnectionState_loop applicationId ?es (pre @ c # post) [] t =
      applyConnectionState_loop applicationId ?es (c # post) m1 t1"
    using run by (simp add: loop_append)
  also have "\<dots> = (t1\<lparr>calls := calls t1 @ [Read c, Write c (next_clients applicationId ?es t1 c)]\<rparr>,
      [], Some (UpdateConnection c e))"
    using assms(2-4) unfolding t1 by (rule loop_fail)
  finally show ?thesis
    by (simp add: applyConnectionState_def t1 [unfolded applyConnectionState_def])
qed

theorem write_failure_aborts_witness:
  "error_result failing_tenant [''c1''] ''app1'' [''c1''] = None
   \<and> read_error (tenant_after failing_tenant [''c1''] ''app1'' [''c1'']) ''c2'' = None
   \<and> needs_write ''app1'' (makeEnabledSet [''c1''])
        (tenant_after failing_tenant [''c1''] ''app1'' [''c1'']) ''c2''
   \<and> write_error (tenant_after failing_tenant [''c1''] ''app1'' [''c1'']) ''c2''
        = Some (UpdateRequestStatus 403 ''forbidden'')
   \<and> error_result failing_tenant ([''c1''] @ ''c2'' # [''c3'']) ''app1'' [''c1'']
        = Some (UpdateConnection ''c2'' (UpdateRequestStatus 403 ''forbidden''))
   \<and> error_message (UpdateConnection ''c2'' (UpdateRequestStatus 403 ''forbidden''))
        = ''failed to update connection c2: update request failed with status 403: forbidden''
   \<and> calls (tenant_after failing_tenant ([''c1''] @ ''c2'' # [''c3'']) ''app1'' [''c1''])
        = [Read ''c1'', Write ''c1'' [''app1'', ''app2''], Read ''c2'', Write ''c2'' [''app2'']]
   \<and> enabled_clients (tenant_after failing_tenant ([''c1''] @ ''c2'' # [''c3'']) ''app1'' [''c1''])
        = enabled_clients (tenant_after failing_tenant [''c1''] ''app1'' [''c1''])"
proof -
  have h1: "error_result failing_tenant [''c1''] ''app1'' [''c1''] = None" by code_simp
  have h2: "read_error (tenant_after failing_tenant [''c1''] ''app1'' [''c1'']) ''c2'' = None"
    by code_simp
  have h3: "needs_write ''app1'' (makeEnabledSet [''c1''])
        (tenant_after failing_tenant [''c1''] ''app1'' [''c1'']) ''c2''" by code_simp
  have h4: "write_error (tenant_after failing_tenant [''c1''] ''app1'' [''c1'']) ''c2''
        = Some (UpdateRequestStatus 403 ''forbidden'')" by code_simp
  have m: "error_message (UpdateConnection ''c2'' (UpdateRequestStatus 403 ''forbidden''))
        = ''failed to update connection c2: update request failed with status 403: forbidden''"
    by code_simp
  have l: "calls (tenant_after failing_tenant ([''c1''] @ ''c2'' # [''c3'']) ''app1'' [''c1''])
        = [Read ''c1'', Write ''c1'' [''app1'', ''app2''], Read ''c2'', Write ''c2'' [''app2'']]"
    by code_simp
  from write_failure_aborts [OF h1 h2 h3 h4, of "[''c3'']"] h1 h2 h3 h4 m l show ?thesis
    by blast
qed

subsection \<open>The result of an aborted run\<close>

text \<open>
  Claim C9. When \<^verbatim>\<open>applyConnectionState\<close> returns an error, the list of managed connections
  returned with it is nil: the connections written before the failure are not reported.
\<close>

theorem managed_nil_on_error:
  assumes "error_result t allConnections applicationId enabledConnectionIds = Some e"
  shows "managed_result t allConnections applicationId enabledConnectionIds = []"
  using assms by (simp add: applyConnectionState_def loop_error_nil)

theorem managed_nil_on_error_witness:
  "error_result failing_tenant [''c1'', ''c2''] ''app1'' [''c1'']
     = Some (UpdateConnection ''c2'' (UpdateRequestStatus 403 ''forbidden''))
   \<and> enabled_clients (tenant_after failing_tenant [''c1'', ''c2''] ''app1'' [''c1'']) ''c1''
       = [''app1'', ''app2'']
   \<and> managed_result failing_tenant [''c1'', ''c2''] ''app1'' [''c1''] = []"
proof -
  have h: "error_result failing_tenant [''c1'', ''c2''] ''app1'' [''c1'']
     = Some (UpdateConnection ''c2'' (UpdateRequestStatus 403 ''forbidden''))"
    by code_simp
  have w: "enabled_clients (tenant_after failing_tenant [''c1'', ''c2''] ''app1'' [''c1'']) ''c1''
       = [''app1'', ''app2'']"
    by code_simp
  from managed_nil_on_error [OF h] h w show ?thesis by blast
qed

subsection \<open>Desired connections that are not listed\<close>


end
